theory Spec2Isabelle
  imports Main "HOL-Library.Multiset"
begin

section \<open>The view-state engine of the DataGrid component\<close>

text \<open>
  The development follows \<^verbatim>\<open>src/Compoents/DataGridComponent.jsx\<close>: the memoised
  pipeline \<^verbatim>\<open>sortedFilteredData\<close> and the three mutations \<^verbatim>\<open>handleSort\<close>,
  \<^verbatim>\<open>handleFilter\<close> and \<^verbatim>\<open>handleRowSelect\<close> of the \<^verbatim>\<open>DataGrid\<close> container.
\<close>

subsection \<open>What the host language provides\<close>

text \<open>
  Rows are opaque objects of type \<open>'r\<close> (HOL equality on \<open>'r\<close> is the identity the
  host's \<^verbatim>\<open>Set\<close> uses), and the values of their properties have type \<open>'v\<close>. The
  component reads a property with \<^verbatim>\<open>a[sort.field]\<close> and compares two values with the
  operators \<^verbatim>\<open>>\<close> and \<^verbatim>\<open><\<close>; the three are parameters of the model, so that every
  general theorem holds for whatever these operators do.
\<close>

record ('r, 'v) host =
  getProp :: "'r \<Rightarrow> string \<Rightarrow> 'v"
  opGt :: "'v \<Rightarrow> 'v \<Rightarrow> bool"
  opLt :: "'v \<Rightarrow> 'v \<Rightarrow> bool"

text \<open>
  \<^verbatim>\<open>Array.prototype.sort(compareFn)\<close> sorts an array in place and is stable. The
  language fixes its result when the comparator is consistent on the elements, and leaves
  the order to the implementation otherwise. It is modelled as the stable insertion sort:
  every element is inserted in front of the first element of the already sorted rest that
  the comparator does not place before it. For a consistent comparator this is the result
  of every host, and in general the order of a view is stated below for comparable values
  only.
\<close>

fun insertBy :: "('r \<Rightarrow> 'r \<Rightarrow> int) \<Rightarrow> 'r \<Rightarrow> 'r list \<Rightarrow> 'r list" where
  "insertBy c x [] = [x]"
| "insertBy c x (y # ys) = (if c x y \<le> 0 then x # y # ys else y # insertBy c x ys)"

fun arraySort :: "('r \<Rightarrow> 'r \<Rightarrow> int) \<Rightarrow> 'r list \<Rightarrow> 'r list" where
  "arraySort c [] = []"
| "arraySort c (x # xs) = insertBy c x (arraySort c xs)"

text \<open>
  What an implementation does with a comparator that is not consistent differs. The V8
  engine sorts an array of fewer than 64 elements as follows: it takes the longest run at
  the start of the array, by comparing each element with the one before it (a strictly
  descending run is reversed), and inserts every further element in the sorted part in
  front of it, at the place a binary search finds.
\<close>

function binarySearch :: "('r \<Rightarrow> 'r \<Rightarrow> int) \<Rightarrow> 'r \<Rightarrow> 'r list \<Rightarrow> nat \<Rightarrow> nat \<Rightarrow> nat" where
  "binarySearch c pivot xs left right =
     (if left < right
      then (if c pivot (xs ! (left + (right - left) div 2)) < 0
            then binarySearch c pivot xs left (left + (right - left) div 2)
            else binarySearch c pivot xs (left + (right - left) div 2 + 1) right)
      else left)"
  by pat_completeness auto
termination
  by (relation "measure (\<lambda>(c, pivot, xs, left, right). right - left)") auto

declare binarySearch.simps [simp del]

fun binaryInsertion :: "('r \<Rightarrow> 'r \<Rightarrow> int) \<Rightarrow> 'r list \<Rightarrow> 'r list \<Rightarrow> 'r list" where
  "binaryInsertion c run [] = run"
| "binaryInsertion c run (pivot # rest) =
     (let left = binarySearch c pivot run 0 (length run)
      in binaryInsertion c (take left run @ pivot # drop left run) rest)"

fun extendRun :: "('r \<Rightarrow> 'r \<Rightarrow> int) \<Rightarrow> bool \<Rightarrow> 'r \<Rightarrow> 'r list \<Rightarrow> nat" where
  "extendRun c isDescending previous [] = 0"
| "extendRun c isDescending previous (current # rest) =
     (if (if isDescending then c current previous \<ge> 0 else c current previous < 0) then 0
      else Suc (extendRun c isDescending current rest))"

definition binaryInsertionSort :: "('r \<Rightarrow> 'r \<Rightarrow> int) \<Rightarrow> 'r list \<Rightarrow> 'r list" where
  "binaryInsertionSort c xs =
     (case xs of
        [] \<Rightarrow> []
      | [x] \<Rightarrow> [x]
      | elementHigh # elementLow # rest \<Rightarrow>
          (let isDescending = (c elementLow elementHigh < 0);
               runLength = 2 + extendRun c isDescending elementLow rest;
               run = take runLength xs
           in binaryInsertion c (if isDescending then rev run else run) (drop runLength xs)))"

text \<open>
  Arrays are mutable objects. A store holds the arrays that exist, an array's reference
  being its index in the store; creating an array appends it to the store.
\<close>

type_synonym 'r store = "'r list list"

definition alloc :: "'r store \<Rightarrow> 'r list \<Rightarrow> 'r store \<times> nat" where
  "alloc h xs = (h @ [xs], length h)"

subsection \<open>The state of the container\<close>

text \<open>
  \<^verbatim>\<open>sort\<close> is an object with the optional properties \<^verbatim>\<open>field\<close> and
  \<^verbatim>\<open>direction\<close>; \<open>None\<close> is a property that is absent (\<^verbatim>\<open>undefined\<close>).
\<close>

record sort_spec =
  field :: "string option"
  direction :: "string option"

text \<open>
  \<^verbatim>\<open>filters\<close> is an object from field names to filter functions, kept as the list of
  its entries in the order of their creation, the order in which \<^verbatim>\<open>Object.entries\<close>
  lists keys that are not array indices; \<open>None\<close> is a value that is \<^verbatim>\<open>null\<close> or
  \<^verbatim>\<open>undefined\<close>. A filter function is a predicate on the row. The view does not
  depend on the order of the entries (lemma \<open>DerivedView_entry_order\<close>).
\<close>

type_synonym 'r registry = "(string \<times> ('r \<Rightarrow> bool) option) list"

text \<open>
  \<^verbatim>\<open>selectedRows\<close> is a \<^verbatim>\<open>Set\<close>, kept as the list of its members in insertion
  order, which is the order \<^verbatim>\<open>[...newSelectedRows]\<close> lists them in.
\<close>

record 'r grid =
  sortSpec :: sort_spec
  filters :: "'r registry"
  selectedRows :: "'r list"

text \<open>
  The props of the container. Of a callback only whether it was passed matters
  (\<^verbatim>\<open>if (onSort) ...\<close>); calling it is recorded as a notification.
\<close>

record 'r props =
  data :: "'r list"
  defaultSort :: "sort_spec option"
  onSort :: bool
  onFilter :: bool
  onRowSelect :: bool

datatype 'r notification =
  OnSort sort_spec
| OnFilter "'r registry"
| OnRowSelect "'r list"

definition initial :: "'r props \<Rightarrow> 'r grid" where
  "initial p =
     \<lparr> sortSpec = (case defaultSort p of Some s \<Rightarrow> s | None \<Rightarrow> \<lparr> field = None, direction = None \<rparr>),
       filters = [],
       selectedRows = [] \<rparr>"

subsection \<open>The pipeline\<close>

text \<open>The field to sort by, when \<^verbatim>\<open>sort.field\<close> is truthy.\<close>

definition sortField :: "sort_spec \<Rightarrow> string option" where
  "sortField s = (case field s of None \<Rightarrow> None | Some f \<Rightarrow> if f = [] then None else Some f)"

text \<open>The comparator passed to \<^verbatim>\<open>filteredData.sort\<close>.\<close>

definition comparator :: "('r, 'v) host \<Rightarrow> string \<Rightarrow> string option \<Rightarrow> 'r \<Rightarrow> 'r \<Rightarrow> int" where
  "comparator H f sortDirection a b =
     (let aValue = getProp H a f;
          bValue = getProp H b f;
          direction = (if sortDirection = Some ''asc'' then 1 else - 1)
      in if opGt H aValue bValue then direction
         else if opLt H aValue bValue then - direction
         else 0)"

text \<open>
  The \<^verbatim>\<open>forEach\<close> over the entries of \<^verbatim>\<open>filters\<close>: every truthy filter function
  replaces \<^verbatim>\<open>filteredData\<close> by a new, filtered array.
\<close>

fun forEachFilter :: "'r store \<times> nat \<Rightarrow> 'r registry \<Rightarrow> 'r store \<times> nat" where
  "forEachFilter (h, filteredData) [] = (h, filteredData)"
| "forEachFilter (h, filteredData) ((fieldName, filterFn) # es) =
     (case filterFn of
        None \<Rightarrow> forEachFilter (h, filteredData) es
      | Some p \<Rightarrow> forEachFilter (alloc h (filter p (h ! filteredData))) es)"

text \<open>
  \<^verbatim>\<open>sortedFilteredData\<close>, on the store: \<open>dataRef\<close> is the caller's array. The result
  is the store afterwards and the reference of the array returned.
\<close>

definition sortedFilteredData ::
  "('r, 'v) host \<Rightarrow> 'r store \<Rightarrow> nat \<Rightarrow> 'r registry \<Rightarrow> sort_spec \<Rightarrow> 'r store \<times> nat" where
  "sortedFilteredData H h dataRef fs s =
     (case forEachFilter (alloc h (h ! dataRef)) fs of
        (h', filteredData) \<Rightarrow>
          (case sortField s of
             None \<Rightarrow> (h', filteredData)
           | Some f \<Rightarrow>
               (h'[filteredData := arraySort (comparator H f (direction s)) (h' ! filteredData)],
                filteredData)))"

text \<open>
  The derived view of a data array: the contents of the array the pipeline returns when
  it runs in a store that holds the caller's array.
\<close>

definition DerivedView :: "('r, 'v) host \<Rightarrow> 'r list \<Rightarrow> 'r registry \<Rightarrow> sort_spec \<Rightarrow> 'r list" where
  "DerivedView H rows fs s = (case sortedFilteredData H [rows] 0 fs s of (h', out) \<Rightarrow> h' ! out)"

text \<open>
  The contents of the view when the host sorts with \<open>hostSort\<close>: the copy of the data,
  filtered by every truthy filter function in turn, then sorted when \<^verbatim>\<open>sort.field\<close> is
  truthy. With the insertion sort it is \<open>DerivedView\<close> (lemma \<open>DerivedView_viewUnder\<close>).
\<close>

definition viewUnder ::
  "(('r \<Rightarrow> 'r \<Rightarrow> int) \<Rightarrow> 'r list \<Rightarrow> 'r list) \<Rightarrow> ('r, 'v) host \<Rightarrow> 'r list \<Rightarrow> 'r registry \<Rightarrow> sort_spec \<Rightarrow> 'r list" where
  "viewUnder hostSort H rows fs s =
     (let filteredData =
            foldl (\<lambda>filteredData (fieldName, filterFn).
                     case filterFn of None \<Rightarrow> filteredData | Some p \<Rightarrow> filter p filteredData)
              rows fs
      in case sortField s of
           None \<Rightarrow> filteredData
         | Some f \<Rightarrow> hostSort (comparator H f (direction s)) filteredData)"

text \<open>
  The sorting step of the pipeline on the contents of an array, for the lemmas that
  describe the pipeline by the contents alone.
\<close>

definition sortStep :: "('r, 'v) host \<Rightarrow> sort_spec \<Rightarrow> 'r list \<Rightarrow> 'r list" where
  "sortStep H s xs =
     (case sortField s of None \<Rightarrow> xs | Some f \<Rightarrow> arraySort (comparator H f (direction s)) xs)"

text \<open>The view that the container broadcasts in a state.\<close>

definition viewOf :: "('r, 'v) host \<Rightarrow> 'r props \<Rightarrow> 'r grid \<Rightarrow> 'r list" where
  "viewOf H p st = DerivedView H (data p) (filters st) (sortSpec st)"

subsection \<open>The mutations\<close>

text \<open>
  Each mutation returns the state of the next render and the notifications it sent.
\<close>

definition handleSort :: "'r props \<Rightarrow> 'r grid \<Rightarrow> string \<Rightarrow> 'r grid \<times> 'r notification list" where
  "handleSort p st f =
     (let direction = (if field (sortSpec st) = Some f \<and> direction (sortSpec st) = Some ''asc''
                       then ''desc'' else ''asc'');
          newSort = \<lparr> field = Some f, direction = Some direction \<rparr>
      in (st\<lparr> sortSpec := newSort \<rparr>, if onSort p then [OnSort newSort] else []))"

text \<open>
  \<^verbatim>\<open>{ ...filters, [field]: filterFn }\<close>: an existing key keeps its place and takes the
  new value, a new key is added after the others.
\<close>

fun setKey :: "'r registry \<Rightarrow> string \<Rightarrow> ('r \<Rightarrow> bool) option \<Rightarrow> 'r registry" where
  "setKey [] k v = [(k, v)]"
| "setKey ((k', v') # es) k v = (if k' = k then (k, v) # es else (k', v') # setKey es k v)"

definition handleFilter ::
  "'r props \<Rightarrow> 'r grid \<Rightarrow> string \<Rightarrow> ('r \<Rightarrow> bool) option \<Rightarrow> 'r grid \<times> 'r notification list" where
  "handleFilter p st f filterFn =
     (let newFilters = setKey (filters st) f filterFn
      in (st\<lparr> filters := newFilters \<rparr>, if onFilter p then [OnFilter newFilters] else []))"

definition handleRowSelect :: "'r props \<Rightarrow> 'r grid \<Rightarrow> 'r \<Rightarrow> 'r grid \<times> 'r notification list" where
  "handleRowSelect p st row =
     (let newSelectedRows =
            (if row \<in> set (selectedRows st) then removeAll row (selectedRows st)
             else selectedRows st @ [row])
      in (st\<lparr> selectedRows := newSelectedRows \<rparr>,
          if onRowSelect p then [OnRowSelect newSelectedRows] else []))"

subsection \<open>Notions the properties are stated with\<close>

text \<open>
  A row passes a registry when every filter function registered in it accepts the row.
\<close>

fun passesAll :: "'r registry \<Rightarrow> 'r \<Rightarrow> bool" where
  "passesAll [] r = True"
| "passesAll ((k, v) # es) r = ((case v of None \<Rightarrow> True | Some p \<Rightarrow> p r) \<and> passesAll es r)"

text \<open>
  A list of rows is ordered by a field: ascending when the direction is \<^verbatim>\<open>'asc'\<close> (no
  row is greater than a later one), descending otherwise (no row is less than a later
  one).
\<close>

definition orderedBy :: "('r, 'v) host \<Rightarrow> string \<Rightarrow> string option \<Rightarrow> 'r list \<Rightarrow> bool" where
  "orderedBy H f dir xs =
     sorted_wrt (\<lambda>a b. if dir = Some ''asc'' then \<not> opGt H (getProp H a f) (getProp H b f)
                      else \<not> opLt H (getProp H a f) (getProp H b f)) xs"

text \<open>Two rows tie on a field: neither value is greater or less than the other.\<close>

definition tie :: "('r, 'v) host \<Rightarrow> string \<Rightarrow> 'r \<Rightarrow> 'r \<Rightarrow> bool" where
  "tie H f a b =
     (\<not> opGt H (getProp H a f) (getProp H b f) \<and> \<not> opLt H (getProp H a f) (getProp H b f) \<and>
      \<not> opGt H (getProp H b f) (getProp H a f) \<and> \<not> opLt H (getProp H b f) (getProp H a f))"

text \<open>
  The values of a field are mutually comparable on a list of rows: on them \<^verbatim>\<open>>\<close> is
  the converse of \<^verbatim>\<open><\<close>, \<^verbatim>\<open><\<close> is asymmetric, and not being less is transitive.
\<close>

definition comparable :: "('r, 'v) host \<Rightarrow> string \<Rightarrow> 'r list \<Rightarrow> bool" where
  "comparable H f xs =
     (\<forall>a\<in>set xs. \<forall>b\<in>set xs. \<forall>c\<in>set xs.
        (opGt H (getProp H a f) (getProp H b f) = opLt H (getProp H b f) (getProp H a f)) \<and>
        (opLt H (getProp H a f) (getProp H b f) \<longrightarrow> \<not> opLt H (getProp H b f) (getProp H a f)) \<and>
        (\<not> opLt H (getProp H a f) (getProp H b f) \<and> \<not> opLt H (getProp H b f) (getProp H c f)
           \<longrightarrow> \<not> opLt H (getProp H a f) (getProp H c f)))"

text \<open>Every two rows of a list tie on a field, as when none of them has it.\<close>

definition allTie :: "('r, 'v) host \<Rightarrow> string \<Rightarrow> 'r list \<Rightarrow> bool" where
  "allTie H f xs = (\<forall>a\<in>set xs. \<forall>b\<in>set xs. tie H f a b)"

subsection \<open>A concrete host\<close>

text \<open>
  For the concrete examples: rows are objects given by their own properties, a value is
  \<^verbatim>\<open>undefined\<close> or an integral number, reading a property that the object does not
  have yields \<^verbatim>\<open>undefined\<close>, and a comparison with \<^verbatim>\<open>undefined\<close> on either side is
  false (the operand converts to \<^verbatim>\<open>NaN\<close>).
\<close>

datatype jsval = JUndefined | JNum int

type_synonym jsobj = "(string \<times> jsval) list"

definition jsGet :: "jsobj \<Rightarrow> string \<Rightarrow> jsval" where
  "jsGet obj k = (case map_of obj k of None \<Rightarrow> JUndefined | Some v \<Rightarrow> v)"

fun jsGt :: "jsval \<Rightarrow> jsval \<Rightarrow> bool" where
  "jsGt (JNum a) (JNum b) = (a > b)"
| "jsGt _ _ = False"

fun jsLt :: "jsval \<Rightarrow> jsval \<Rightarrow> bool" where
  "jsLt (JNum a) (JNum b) = (a < b)"
| "jsLt _ _ = False"

definition jsHost :: "(jsobj, jsval) host" where
  "jsHost = \<lparr> getProp = jsGet, opGt = jsGt, opLt = jsLt \<rparr>"

text \<open>
  Six rows, \<open>rowB\<close> and \<open>rowE\<close> without the property \<^verbatim>\<open>v\<close>, two sort specs and a
  filter function.
\<close>

definition rowA :: jsobj where
  "rowA = [(''id'', JNum 1), (''v'', JNum 3)]"

definition rowB :: jsobj where
  "rowB = [(''id'', JNum 2)]"

definition rowC :: jsobj where
  "rowC = [(''id'', JNum 3), (''v'', JNum 1)]"

definition rowD :: jsobj where
  "rowD = [(''id'', JNum 4), (''v'', JNum 3)]"

definition rowE :: jsobj where
  "rowE = [(''id'', JNum 5)]"

definition rowF :: jsobj where
  "rowF = [(''id'', JNum 6), (''v'', JNum 2)]"

definition ascV :: sort_spec where
  "ascV = \<lparr> field = Some ''v'', direction = Some ''asc'' \<rparr>"

definition descV :: sort_spec where
  "descV = \<lparr> field = Some ''v'', direction = Some ''desc'' \<rparr>"

definition hasV :: "jsobj \<Rightarrow> bool" where
  "hasV r = (jsGet r ''v'' \<noteq> JUndefined)"

text \<open>A container over three of the rows with all callbacks passed, and one with none.\<close>

definition exProps :: "jsobj props" where
  "exProps = \<lparr> data = [rowA, rowB, rowC], defaultSort = None,
                onSort = True, onFilter = True, onRowSelect = True \<rparr>"

definition quietProps :: "jsobj props" where
  "quietProps = \<lparr> data = [rowA, rowB, rowC], defaultSort = None,
                   onSort = False, onFilter = False, onRowSelect = False \<rparr>"

section \<open>Properties of the pipeline\<close>

subsection \<open>The host's sort\<close>

text \<open>
  The sort permutes its input; it leaves the elements that satisfy \<open>P\<close> in their order
  whenever the comparator places no such element after another one; and its result is
  ordered by the comparator wherever the comparator is total and transitive.
\<close>

lemma mset_insertBy: "mset (insertBy c x ys) = add_mset x (mset ys)"
  by (induction ys) auto

lemma set_insertBy: "set (insertBy c x ys) = insert x (set ys)"
  by (induction ys) auto

lemma mset_arraySort: "mset (arraySort c xs) = mset xs"
  by (induction xs) (auto simp: mset_insertBy)

lemma set_arraySort: "set (arraySort c xs) = set xs"
  using mset_arraySort [of c xs] by (metis set_mset_mset)

lemma filter_insertBy:
  assumes "\<And>y. y \<in> set ys \<Longrightarrow> P x \<Longrightarrow> P y \<Longrightarrow> x \<noteq> y \<Longrightarrow> c x y \<le> 0"
  shows "filter P (insertBy c x ys) = filter P (x # ys)"
  using assms
proof (induction ys)
  case Nil
  show ?case by simp
next
  case (Cons y ys)
  have IH: "filter P (insertBy c x ys) = filter P (x # ys)"
  proof (rule Cons.IH)
    show "c x y' \<le> 0" if "y' \<in> set ys" "P x" "P y'" "x \<noteq> y'" for y'
      using Cons.prems [of y'] that by simp
  qed
  show ?case
  proof (cases "c x y \<le> 0")
    case True
    then show ?thesis by simp
  next
    case False
    then have "\<not> (P x \<and> P y \<and> x \<noteq> y)" using Cons.prems [of y] by auto
    then show ?thesis using False IH by (cases "P x"; cases "P y") simp_all
  qed
qed

lemma filter_arraySort:
  assumes "\<And>x y. x \<in> set xs \<Longrightarrow> y \<in> set xs \<Longrightarrow> P x \<Longrightarrow> P y \<Longrightarrow> x \<noteq> y \<Longrightarrow> c x y \<le> 0"
  shows "filter P (arraySort c xs) = filter P xs"
  using assms
proof (induction xs)
  case Nil
  show ?case by simp
next
  case (Cons x xs)
  have "filter P (insertBy c x (arraySort c xs)) = filter P (x # arraySort c xs)"
  proof (rule filter_insertBy)
    show "c x y \<le> 0" if "y \<in> set (arraySort c xs)" "P x" "P y" "x \<noteq> y" for y
      using Cons.prems [of x y] that by (simp add: set_arraySort)
  qed
  moreover have "filter P (arraySort c xs) = filter P xs"
  proof (rule Cons.IH)
    show "c a b \<le> 0" if "a \<in> set xs" "b \<in> set xs" "P a" "P b" "a \<noteq> b" for a b
      using Cons.prems [of a b] that by simp
  qed
  ultimately show ?case by simp
qed

lemma sorted_insertBy:
  assumes "sorted_wrt (\<lambda>a b. c a b \<le> 0) ys"
    and "\<And>y. y \<in> set ys \<Longrightarrow> c x y \<le> 0 \<or> c y x \<le> 0"
    and "\<And>y z. y \<in> set ys \<Longrightarrow> z \<in> set ys \<Longrightarrow> c x y \<le> 0 \<Longrightarrow> c y z \<le> 0 \<Longrightarrow> c x z \<le> 0"
  shows "sorted_wrt (\<lambda>a b. c a b \<le> 0) (insertBy c x ys)"
  using assms
proof (induction ys)
  case Nil
  show ?case by simp
next
  case (Cons y ys)
  from Cons.prems(1) have tail: "\<forall>z\<in>set ys. c y z \<le> 0" and s: "sorted_wrt (\<lambda>a b. c a b \<le> 0) ys"
    by simp_all
  show ?case
  proof (cases "c x y \<le> 0")
    case True
    have "c x z \<le> 0" if "z \<in> set ys" for z
      using Cons.prems(3) [of y z] that True tail by simp
    then show ?thesis using True Cons.prems(1) by simp
  next
    case False
    then have yx: "c y x \<le> 0" using Cons.prems(2) [of y] by simp
    have "sorted_wrt (\<lambda>a b. c a b \<le> 0) (insertBy c x ys)"
    proof (rule Cons.IH [OF s])
      show "c x y' \<le> 0 \<or> c y' x \<le> 0" if "y' \<in> set ys" for y'
        using Cons.prems(2) [of y'] that by simp
      show "c x z \<le> 0" if "y' \<in> set ys" "z \<in> set ys" "c x y' \<le> 0" "c y' z \<le> 0" for y' z
        using Cons.prems(3) [of y' z] that by simp
    qed
    then show ?thesis using False yx tail by (simp add: set_insertBy)
  qed
qed

lemma sorted_arraySort:
  assumes "\<And>x y. x \<in> set xs \<Longrightarrow> y \<in> set xs \<Longrightarrow> c x y \<le> 0 \<or> c y x \<le> 0"
    and "\<And>x y z. x \<in> set xs \<Longrightarrow> y \<in> set xs \<Longrightarrow> z \<in> set xs \<Longrightarrow>
           c x y \<le> 0 \<Longrightarrow> c y z \<le> 0 \<Longrightarrow> c x z \<le> 0"
  shows "sorted_wrt (\<lambda>a b. c a b \<le> 0) (arraySort c xs)"
  using assms
proof (induction xs)
  case Nil
  show ?case by simp
next
  case (Cons x xs)
  have "sorted_wrt (\<lambda>a b. c a b \<le> 0) (arraySort c xs)"
  proof (rule Cons.IH)
    show "c a b \<le> 0 \<or> c b a \<le> 0" if "a \<in> set xs" "b \<in> set xs" for a b
      using Cons.prems(1) [of a b] that by simp
    show "c a d \<le> 0" if "a \<in> set xs" "b \<in> set xs" "d \<in> set xs" "c a b \<le> 0" "c b d \<le> 0" for a b d
      using Cons.prems(2) [of a b d] that by simp
  qed
  then have "sorted_wrt (\<lambda>a b. c a b \<le> 0) (insertBy c x (arraySort c xs))"
  proof (rule sorted_insertBy)
    show "c x y \<le> 0 \<or> c y x \<le> 0" if "y \<in> set (arraySort c xs)" for y
      using Cons.prems(1) [of x y] that by (simp add: set_arraySort)
    show "c x z \<le> 0" if "y \<in> set (arraySort c xs)" "z \<in> set (arraySort c xs)" "c x y \<le> 0" "c y z \<le> 0" for y z
      using Cons.prems(2) [of x y z] that by (simp add: set_arraySort)
  qed
  then show ?case by simp
qed

lemma arraySort_all_le:
  "(\<And>x y. x \<in> set xs \<Longrightarrow> y \<in> set xs \<Longrightarrow> c x y \<le> 0) \<Longrightarrow> arraySort c xs = xs"
proof (induction xs)
  case Nil
  show ?case by simp
next
  case (Cons x xs)
  have "arraySort c xs = xs"
  proof (rule Cons.IH)
    show "c a b \<le> 0" if "a \<in> set xs" "b \<in> set xs" for a b
      using Cons.prems [of a b] that by simp
  qed
  moreover have "insertBy c x xs = x # xs"
  proof (cases xs)
    case Nil
    then show ?thesis by simp
  next
    case (Cons y ys)
    with Cons.prems [of x y] show ?thesis by simp
  qed
  ultimately show ?case by simp
qed

lemma mset_take_drop: "mset (take n xs) + mset (drop n xs) = mset xs"
  by (metis append_take_drop_id mset_append)

lemma mset_binaryInsertion: "mset (binaryInsertion c run rest) = mset run + mset rest"
proof (induction rest arbitrary: run)
  case Nil
  show ?case by simp
next
  case (Cons pivot rest)
  define left where "left = binarySearch c pivot run 0 (length run)"
  have "mset (binaryInsertion c run (pivot # rest)) =
      mset (take left run @ pivot # drop left run) + mset rest"
    by (simp add: Cons.IH left_def Let_def)
  also have "\<dots> = add_mset pivot (mset (take left run) + mset (drop left run)) + mset rest"
    by simp
  also have "\<dots> = mset run + mset (pivot # rest)"
    unfolding mset_take_drop by simp
  finally show ?case .
qed

lemma mset_binaryInsertionSort: "mset (binaryInsertionSort c xs) = mset xs"
proof (cases xs)
  case Nil
  then show ?thesis by (simp add: binaryInsertionSort_def)
next
  case (Cons x ys)
  show ?thesis
  proof (cases ys)
    case Nil
    with Cons show ?thesis by (simp add: binaryInsertionSort_def)
  next
    case (Cons y zs)
    define n where "n = 2 + extendRun c (c y x < 0) y zs"
    have r: "binaryInsertionSort c xs = binaryInsertion c (if c y x < 0 then rev (take n xs) else take n xs) (drop n xs)"
      unfolding \<open>xs = x # ys\<close> Cons binaryInsertionSort_def n_def by (simp only: list.case Let_def)
    show ?thesis unfolding r mset_binaryInsertion
      using mset_take_drop [of n xs] by (cases "c y x < 0") simp_all
  qed
qed

subsection \<open>The pipeline, on the store and on the contents\<close>

lemma passesAll_iff: "passesAll fs r \<longleftrightarrow> (\<forall>k p. (k, Some p) \<in> set fs \<longrightarrow> p r)"
proof (induction fs)
  case Nil
  show ?case by simp
next
  case (Cons e es)
  obtain k v where e: "e = (k, v)" by (cases e)
  show ?case
  proof (cases v)
    case None
    then show ?thesis unfolding e by (simp add: Cons.IH)
  next
    case (Some q)
    have "(q r \<and> (\<forall>k' p. (k', Some p) \<in> set es \<longrightarrow> p r)) \<longleftrightarrow>
          (\<forall>k' p. (k', Some p) \<in> set ((k, Some q) # es) \<longrightarrow> p r)"
      by (simp; blast)
    then show ?thesis unfolding e Some by (simp add: Cons.IH)
  qed
qed

lemma passesAll_cong:
  assumes "set fs = set gs"
  shows "passesAll fs = passesAll gs"
proof (rule ext)
  fix r
  show "passesAll fs r = passesAll gs r"
    unfolding passesAll_iff assms ..
qed

lemma passesAll_drop_null: "passesAll (filter (\<lambda>e. snd e \<noteq> None) fs) r = passesAll fs r"
  by (induction fs r rule: passesAll.induct) (auto split: option.splits)

lemma forEachFilter_spec:
  "fd < length h \<Longrightarrow>
   \<exists>ext out. forEachFilter (h, fd) fs = (h @ ext, out) \<and> fd \<le> out \<and> out < length (h @ ext) \<and>
     (h @ ext) ! out = filter (passesAll fs) (h ! fd)"
proof (induction fs arbitrary: h fd)
  case Nil
  then show ?case by (intro exI [of _ "[]"] exI [of _ fd]) simp
next
  case (Cons e es)
  obtain k v where e: "e = (k, v)" by (cases e)
  show ?case
  proof (cases v)
    case None
    from Cons.IH [OF Cons.prems] obtain ext out where
      "forEachFilter (h, fd) es = (h @ ext, out)" "fd \<le> out" "out < length (h @ ext)"
      "(h @ ext) ! out = filter (passesAll es) (h ! fd)" by blast
    then show ?thesis using e None by auto
  next
    case (Some p)
    let ?h = "h @ [filter p (h ! fd)]"
    have "length h < length ?h" by simp
    from Cons.IH [OF this] obtain ext out where
      r: "forEachFilter (?h, length h) es = (?h @ ext, out)" "length h \<le> out" "out < length (?h @ ext)"
      "(?h @ ext) ! out = filter (passesAll es) (?h ! length h)" by blast
    have "filter (passesAll es) (filter p (h ! fd)) = filter (passesAll (e # es)) (h ! fd)"
      using e Some by (auto intro: filter_cong)
    with r show ?thesis using e Some Cons.prems
      by (intro exI [of _ "filter p (h ! fd) # ext"] exI [of _ out]) (simp add: alloc_def)
  qed
qed

lemma sortedFilteredData_spec:
  assumes "dataRef < length h"
  shows "\<exists>ext out. sortedFilteredData H h dataRef fs s = (h @ ext, out) \<and> length h \<le> out \<and>
           out < length (h @ ext) \<and>
           (h @ ext) ! out = sortStep H s (filter (passesAll fs) (h ! dataRef))"
proof -
  let ?h = "h @ [h ! dataRef]"
  have "length h < length ?h" by simp
  from forEachFilter_spec [OF this, of fs] obtain ext out where
    r: "forEachFilter (?h, length h) fs = (?h @ ext, out)" "length h \<le> out"
       "out < length (?h @ ext)" "(?h @ ext) ! out = filter (passesAll fs) (?h ! length h)"
    by blast
  define e where "e = (h ! dataRef) # ext"
  have h: "?h @ ext = h @ e" by (simp add: e_def)
  have run: "forEachFilter (alloc h (h ! dataRef)) fs = (h @ e, out)"
    using r(1) unfolding h by (simp add: alloc_def)
  have len: "out < length (h @ e)" using r(3) by (simp only: h)
  have val: "(h @ e) ! out = filter (passesAll fs) (h ! dataRef)"
    using r(4) by (simp only: h) simp
  show ?thesis
  proof (cases "sortField s")
    case None
    have "sortedFilteredData H h dataRef fs s = (h @ e, out)"
      by (simp add: sortedFilteredData_def run None)
    moreover have "(h @ e) ! out = sortStep H s (filter (passesAll fs) (h ! dataRef))"
      by (simp add: val sortStep_def None)
    ultimately show ?thesis using r(2) len by (intro exI [of _ e] exI [of _ out] conjI)
  next
    case (Some f)
    define ys where "ys = arraySort (comparator H f (direction s)) ((h @ e) ! out)"
    have u: "(h @ e)[out := ys] = h @ e[out - length h := ys]"
      using r(2) by (simp add: list_update_append)
    have res: "sortedFilteredData H h dataRef fs s = (h @ e[out - length h := ys], out)"
      by (simp add: sortedFilteredData_def run Some ys_def [symmetric] u)
    have n: "(h @ e[out - length h := ys]) ! out = ys"
      using len unfolding u [symmetric] by simp
    have l: "out < length (h @ e[out - length h := ys])"
      using len by simp
    have "ys = sortStep H s (filter (passesAll fs) (h ! dataRef))"
      by (simp add: ys_def val sortStep_def Some)
    with res n l r(2) show ?thesis
      by (intro exI [of _ "e[out - length h := ys]"] exI [of _ out] conjI) simp_all
  qed
qed

lemma DerivedView_eq:
  "DerivedView H rows fs s = sortStep H s (filter (passesAll fs) rows)"
proof -
  have "0 < length [rows]" by simp
  from sortedFilteredData_spec [OF this, of H fs s] obtain ext out where
    "sortedFilteredData H [rows] 0 fs s = ([rows] @ ext, out)"
    "([rows] @ ext) ! out = sortStep H s (filter (passesAll fs) ([rows] ! 0))" by blast
  then show ?thesis by (simp add: DerivedView_def)
qed

lemma sortedFilteredData_contents:
  assumes "dataRef < length h"
  shows "fst (sortedFilteredData H h dataRef fs s) ! snd (sortedFilteredData H h dataRef fs s) =
         DerivedView H (h ! dataRef) fs s"
proof -
  from sortedFilteredData_spec [OF assms, of H fs s] obtain ext out where
    "sortedFilteredData H h dataRef fs s = (h @ ext, out)"
    "(h @ ext) ! out = sortStep H s (filter (passesAll fs) (h ! dataRef))" by blast
  then show ?thesis by (simp add: DerivedView_eq)
qed

lemma mset_sortStep: "mset (sortStep H s xs) = mset xs"
  by (simp add: sortStep_def mset_arraySort split: option.splits)

lemma set_DerivedView: "set (DerivedView H rows fs s) = {r \<in> set rows. passesAll fs r}"
proof -
  have "set (DerivedView H rows fs s) = set_mset (mset (DerivedView H rows fs s))" by simp
  also have "\<dots> = set_mset (mset (filter (passesAll fs) rows))"
    unfolding DerivedView_eq mset_sortStep ..
  finally show ?thesis by simp
qed

lemma sortField_Some: "field s = Some f \<Longrightarrow> f \<noteq> [] \<Longrightarrow> sortField s = Some f"
  by (simp add: sortField_def)

lemma DerivedView_unsorted: "DerivedView H rows fs (s\<lparr>field := None\<rparr>) = filter (passesAll fs) rows"
  by (simp add: DerivedView_eq sortStep_def sortField_def)

lemma DerivedView_sorted:
  "field s = Some f \<Longrightarrow> f \<noteq> [] \<Longrightarrow>
   DerivedView H rows fs s =
     arraySort (comparator H f (direction s)) (DerivedView H rows fs (s\<lparr>field := None\<rparr>))"
  unfolding DerivedView_unsorted by (simp add: DerivedView_eq sortStep_def sortField_Some)

lemma DerivedView_entry_order:
  assumes "set fs = set gs"
  shows "DerivedView H rows fs s = DerivedView H rows gs s"
  unfolding DerivedView_eq passesAll_cong [OF assms] ..

lemma foldl_filters: "foldl (\<lambda>filteredData (fieldName, filterFn).
                     case filterFn of None \<Rightarrow> filteredData | Some p \<Rightarrow> filter p filteredData)
              rows fs = filter (passesAll fs) rows"
proof (induction fs arbitrary: rows)
  case Nil
  show ?case by simp
next
  case (Cons e es)
  obtain k v where e: "e = (k, v)" by (cases e)
  show ?case
  proof (cases v)
    case None
    then show ?thesis unfolding e by (simp add: Cons.IH)
  next
    case (Some p)
    have "filter (passesAll es) (filter p rows) = filter (passesAll ((k, Some p) # es)) rows"
      by (auto intro: filter_cong)
    then show ?thesis unfolding e Some by (simp add: Cons.IH)
  qed
qed

lemma DerivedView_viewUnder: "DerivedView H rows fs s = viewUnder arraySort H rows fs s"
  by (simp add: DerivedView_eq sortStep_def viewUnder_def foldl_filters Let_def)

subsection \<open>The comparator\<close>

lemma comparator_le_iff:
  "comparator H f dir a b \<le> 0 \<longleftrightarrow>
     (if dir = Some ''asc'' then \<not> opGt H (getProp H a f) (getProp H b f)
      else opGt H (getProp H a f) (getProp H b f) \<or> \<not> opLt H (getProp H a f) (getProp H b f))"
  by (simp add: comparator_def Let_def)

lemma comparator_tie: "tie H f a b \<Longrightarrow> comparator H f dir a b = 0 \<and> comparator H f dir b a = 0"
  by (simp add: comparator_def tie_def Let_def)

lemma comparableD:
  assumes "comparable H f xs" "a \<in> set xs" "b \<in> set xs" "c \<in> set xs"
  shows "opGt H (getProp H a f) (getProp H b f) = opLt H (getProp H b f) (getProp H a f)"
    and "opLt H (getProp H a f) (getProp H b f) \<Longrightarrow> \<not> opLt H (getProp H b f) (getProp H a f)"
    and "\<not> opLt H (getProp H a f) (getProp H b f) \<Longrightarrow> \<not> opLt H (getProp H b f) (getProp H c f)
           \<Longrightarrow> \<not> opLt H (getProp H a f) (getProp H c f)"
  using assms unfolding comparable_def by blast+

lemma ordered_arraySort:
  assumes cmp: "comparable H f xs"
  shows "orderedBy H f dir (arraySort (comparator H f dir) xs)"
proof -
  let ?c = "comparator H f dir"
  let ?v = "\<lambda>r. getProp H r f"
  have conv: "opGt H (?v a) (?v b) = opLt H (?v b) (?v a)" if "a \<in> set xs" "b \<in> set xs" for a b
    using comparableD(1) [OF cmp that that(1)] .
  have asym: "\<not> opLt H (?v b) (?v a)" if "a \<in> set xs" "b \<in> set xs" "opLt H (?v a) (?v b)" for a b
    using comparableD(2) [OF cmp that(1,2) that(1) that(3)] .
  have ntr: "\<not> opLt H (?v a) (?v d)"
    if "a \<in> set xs" "b \<in> set xs" "d \<in> set xs" "\<not> opLt H (?v a) (?v b)" "\<not> opLt H (?v b) (?v d)" for a b d
    using comparableD(3) [OF cmp that] .
  have le: "?c a b \<le> 0 \<longleftrightarrow>
      (if dir = Some ''asc'' then \<not> opLt H (?v b) (?v a) else \<not> opLt H (?v a) (?v b))"
    if "a \<in> set xs" "b \<in> set xs" for a b
    using conv [OF that] asym [OF that(2,1)] by (auto simp: comparator_le_iff)
  have "sorted_wrt (\<lambda>a b. ?c a b \<le> 0) (arraySort ?c xs)"
  proof (rule sorted_arraySort)
    show "?c x y \<le> 0 \<or> ?c y x \<le> 0" if "x \<in> set xs" "y \<in> set xs" for x y
      using le [OF that] le [OF that(2,1)] asym [OF that] by (cases "dir = Some ''asc''") auto
    show "?c x z \<le> 0"
      if "x \<in> set xs" "y \<in> set xs" "z \<in> set xs" "?c x y \<le> 0" "?c y z \<le> 0" for x y z
      using le [OF that(1,2)] le [OF that(2,3)] le [OF that(1,3)]
        ntr [OF that(1,2,3)] ntr [OF that(3,2,1)] that(4,5)
      by (cases "dir = Some ''asc''") auto
  qed
  then have "sorted_wrt (\<lambda>a b. if dir = Some ''asc'' then \<not> opGt H (?v a) (?v b) else \<not> opLt H (?v a) (?v b))
      (arraySort ?c xs)"
  proof (rule sorted_wrt_mono_rel [rotated])
    fix a b
    assume "a \<in> set (arraySort ?c xs)" "b \<in> set (arraySort ?c xs)" "?c a b \<le> 0"
    then have m: "a \<in> set xs" "b \<in> set xs" and "?c a b \<le> 0" by (simp_all add: set_arraySort)
    then show "if dir = Some ''asc'' then \<not> opGt H (?v a) (?v b) else \<not> opLt H (?v a) (?v b)"
      using le [OF m] conv [OF m] by (cases "dir = Some ''asc''") auto
  qed
  then show ?thesis by (simp add: orderedBy_def)
qed

lemma tie_arraySort:
  assumes "tie H f a b"
  shows "filter (\<lambda>r. r = a \<or> r = b) (arraySort (comparator H f dir) xs) = filter (\<lambda>r. r = a \<or> r = b) xs"
proof (rule filter_arraySort)
  fix x y
  assume "x = a \<or> x = b" "y = a \<or> y = b" "x \<noteq> y"
  then have "(x = a \<and> y = b) \<or> (x = b \<and> y = a)" by auto
  then show "comparator H f dir x y \<le> 0" using comparator_tie [OF assms, of dir] by auto
qed

subsection \<open>The state, the registry and the selection\<close>

lemma sort_spec_eq:
  "(s = \<lparr>field = a, direction = b\<rparr>) \<longleftrightarrow> (field s = a \<and> direction s = b)"
  by (cases s) simp

lemma sortSpec_handleSort:
  "sortSpec (fst (handleSort p st f)) =
     \<lparr>field = Some f,
      direction = Some (if sortSpec st = \<lparr>field = Some f, direction = Some ''asc''\<rparr>
                        then ''desc'' else ''asc'')\<rparr>"
  by (simp add: handleSort_def Let_def sort_spec_eq)

lemma set_toggle:
  "set (selectedRows (fst (handleRowSelect p st r))) =
     (if r \<in> set (selectedRows st) then set (selectedRows st) - {r}
      else insert r (set (selectedRows st)))"
  by (simp add: handleRowSelect_def Let_def)

lemma distinct_toggle:
  "distinct (selectedRows st) \<Longrightarrow> distinct (selectedRows (fst (handleRowSelect p st r)))"
  by (simp add: handleRowSelect_def Let_def distinct_removeAll)

lemma setKey_setKey: "setKey (setKey fs k v) k w = setKey fs k w"
  by (induction fs) auto

lemma keys_setKey: "fst ` set (setKey fs k v) = insert k (fst ` set fs)"
proof (induction fs)
  case Nil
  show ?case by simp
next
  case (Cons e es)
  obtain k' v' where e: "e = (k', v')" by (cases e)
  show ?case
  proof (cases "k' = k")
    case True
    then show ?thesis unfolding e by simp
  next
    case False
    then show ?thesis unfolding e using Cons.IH by (simp add: insert_commute)
  qed
qed

lemma distinct_setKey: "distinct (map fst fs) \<Longrightarrow> distinct (map fst (setKey fs k v))"
proof (induction fs)
  case Nil
  show ?case by simp
next
  case (Cons e es)
  obtain k' v' where e: "e = (k', v')" by (cases e)
  from Cons show ?case unfolding e
    by (simp add: keys_setKey image_iff) auto
qed

lemma map_of_setKey: "map_of (setKey fs k v) k = Some v"
  by (induction fs) auto

lemma in_setKey: "(k, v) \<in> set (setKey fs k v)"
  by (induction fs) auto

lemma length_setKey: "length fs \<le> length (setKey fs k v)"
  by (induction fs) auto

lemma filter_absent_key: "k \<notin> fst ` set fs \<Longrightarrow> filter (\<lambda>e. fst e \<noteq> k) fs = fs"
  by (induction fs) auto

lemma passesAll_setKey_None:
  "distinct (map fst fs) \<Longrightarrow> passesAll (setKey fs k None) r = passesAll (filter (\<lambda>e. fst e \<noteq> k) fs) r"
proof (induction fs)
  case Nil
  show ?case by simp
next
  case (Cons e es)
  obtain k' v' where e: "e = (k', v')" by (cases e)
  show ?case
  proof (cases "k' = k")
    case True
    with Cons.prems e have "k \<notin> fst ` set es" by simp
    then have "filter (\<lambda>e. fst e \<noteq> k) es = es" by (rule filter_absent_key)
    then show ?thesis using True e by simp
  next
    case False
    with Cons e show ?thesis by simp
  qed
qed

lemma keys_distinct_initial: "distinct (map fst (filters (initial p)))"
  by (simp add: initial_def)

lemma keys_distinct_handleFilter:
  "distinct (map fst (filters st)) \<Longrightarrow> distinct (map fst (filters (fst (handleFilter p st f v))))"
  by (simp add: handleFilter_def Let_def distinct_setKey)

subsection \<open>The example rows\<close>

lemma rows_distinct: "rowA \<noteq> rowB" "rowA \<noteq> rowC" "rowB \<noteq> rowC"
  by (simp_all add: rowA_def rowB_def rowC_def)

lemma three_arrangements:
  assumes "mset ys = mset [a, b, c]" and d: "a \<noteq> b" "a \<noteq> c" "b \<noteq> c"
  shows "ys \<in> {[a, b, c], [a, c, b], [b, a, c], [b, c, a], [c, a, b], [c, b, a]}"
proof -
  from assms(1) have "length ys = length [a, b, c]" by (rule mset_eq_length)
  then obtain x y z where ys: "ys = [x, y, z]"
    by (auto simp: length_Suc_conv)
  from assms(1) have "set ys = set [a, b, c]" by (rule mset_eq_setD)
  then have m: "{x, y, z} = {a, b, c}" by (simp add: ys)
  from assms(1) have "distinct ys = distinct [a, b, c]" by (rule mset_eq_imp_distinct_iff)
  with d have n: "x \<noteq> y" "x \<noteq> z" "y \<noteq> z" by (auto simp: ys)
  from m have "x \<in> {a, b, c}" "y \<in> {a, b, c}" "z \<in> {a, b, c}" by blast+
  with n show ?thesis unfolding ys by auto
qed

lemma ex_checks:
  "tie jsHost ''v'' rowA rowB" "tie jsHost ''v'' rowB rowC"
  "\<not> orderedBy jsHost ''v'' (Some ''asc'') [rowA, rowB, rowC]"
  "\<not> orderedBy jsHost ''v'' (Some ''asc'') [rowA, rowC, rowB]"
  "\<not> orderedBy jsHost ''v'' (Some ''asc'') [rowB, rowA, rowC]"
  "filter (\<lambda>r. r = rowA \<or> r = rowB) [rowB, rowC, rowA] \<noteq> filter (\<lambda>r. r = rowA \<or> r = rowB) [rowA, rowB, rowC]"
  "filter (\<lambda>r. r = rowB \<or> r = rowC) [rowC, rowA, rowB] \<noteq> filter (\<lambda>r. r = rowB \<or> r = rowC) [rowA, rowB, rowC]"
  "filter (\<lambda>r. r = rowB \<or> r = rowC) [rowC, rowB, rowA] \<noteq> filter (\<lambda>r. r = rowB \<or> r = rowC) [rowA, rowB, rowC]"
  by code_simp+

lemma binaryInsertionSort_agrees_example:
  "viewUnder binaryInsertionSort jsHost [rowA, rowB, rowC, rowD] [(''v'', Some hasV)] ascV =
     DerivedView jsHost [rowA, rowB, rowC, rowD] [(''v'', Some hasV)] ascV"
  "viewUnder binaryInsertionSort jsHost [rowA, rowB, rowC, rowD] [(''v'', Some hasV)] descV =
     DerivedView jsHost [rowA, rowB, rowC, rowD] [(''v'', Some hasV)] descV"
  "viewUnder binaryInsertionSort jsHost [rowA, rowB, rowC] [] ascV =
     DerivedView jsHost [rowA, rowB, rowC] [] ascV"
  by code_simp+

section \<open>The claims\<close>

subsection \<open>The derived view\<close>

text \<open>
  C1. For every list of source rows, every registry and every sort spec, the derived view
  holds exactly the source rows that every registered filter function that is not null
  accepts, each as often as the source has it: it is a sub-multiset of the source rows,
  with no row dropped that passes, none kept that fails, none duplicated and none invented.
\<close>

theorem view_is_exactly_the_passing_rows:
  "mset (DerivedView H rows fs s) = {#r \<in># mset rows. \<forall>k p. (k, Some p) \<in> set fs \<longrightarrow> p r#} \<and>
   mset (DerivedView H rows fs s) \<subseteq># mset rows"
proof -
  have "passesAll fs = (\<lambda>r. \<forall>k p. (k, Some p) \<in> set fs \<longrightarrow> p r)"
    by (rule ext) (rule passesAll_iff)
  then have "mset (DerivedView H rows fs s) = {#r \<in># mset rows. \<forall>k p. (k, Some p) \<in> set fs \<longrightarrow> p r#}"
    by (simp add: DerivedView_eq mset_sortStep)
  then show ?thesis by simp
qed

theorem view_is_exactly_the_passing_rows_witness:
  "mset (DerivedView jsHost [rowA, rowB, rowC] [(''v'', Some hasV), (''id'', None)] ascV) =
     {#r \<in># mset [rowA, rowB, rowC]. \<forall>k p. (k, Some p) \<in> set [(''v'', Some hasV), (''id'', None)] \<longrightarrow> p r#} \<and>
   DerivedView jsHost [rowA, rowB, rowC] [(''v'', Some hasV), (''id'', None)] ascV = [rowC, rowA] \<and>
   \<not> hasV rowB"
proof -
  have "DerivedView jsHost [rowA, rowB, rowC] [(''v'', Some hasV), (''id'', None)] ascV = [rowC, rowA]"
    by code_simp
  moreover have "\<not> hasV rowB" by code_simp
  moreover note view_is_exactly_the_passing_rows
      [of jsHost "[rowA, rowB, rowC]" "[(''v'', Some hasV), (''id'', None)]" ascV, THEN conjunct1]
  ultimately show ?thesis by (intro conjI)
qed

text \<open>
  C2, as amended. For every sort spec with a non-empty field whose values are mutually
  comparable on the filtered rows, the derived view is ordered by the values of that
  field in the given direction (\<^verbatim>\<open>'asc'\<close> ascending, anything else descending), and
  any two rows that tie on the field keep the relative order they have in the filtered
  input, which is the view computed with sorting off.
\<close>

theorem sorted_view_ordered_and_stable:
  assumes "field s = Some f" and "f \<noteq> []"
    and "comparable H f (DerivedView H rows fs (s\<lparr>field := None\<rparr>))"
  shows "orderedBy H f (direction s) (DerivedView H rows fs s) \<and>
    (\<forall>a b. tie H f a b \<longrightarrow>
       filter (\<lambda>r. r = a \<or> r = b) (DerivedView H rows fs s) =
       filter (\<lambda>r. r = a \<or> r = b) (DerivedView H rows fs (s\<lparr>field := None\<rparr>)))"
proof -
  let ?xs = "DerivedView H rows fs (s\<lparr>field := None\<rparr>)"
  have v: "DerivedView H rows fs s = arraySort (comparator H f (direction s)) ?xs"
    using assms(1,2) by (rule DerivedView_sorted)
  have "orderedBy H f (direction s) (arraySort (comparator H f (direction s)) ?xs)"
    using assms(3) by (rule ordered_arraySort)
  moreover have "filter (\<lambda>r. r = a \<or> r = b) (arraySort (comparator H f (direction s)) ?xs) =
      filter (\<lambda>r. r = a \<or> r = b) ?xs" if "tie H f a b" for a b
    using that by (rule tie_arraySort)
  ultimately show ?thesis unfolding v by blast
qed

theorem sorted_view_ordered_and_stable_witness:
  "field ascV = Some ''v'' \<and> ''v'' \<noteq> [] \<and>
   comparable jsHost ''v''
     (DerivedView jsHost [rowA, rowB, rowC, rowD] [(''v'', Some hasV)] (ascV\<lparr>field := None\<rparr>)) \<and>
   orderedBy jsHost ''v'' (direction ascV)
     (DerivedView jsHost [rowA, rowB, rowC, rowD] [(''v'', Some hasV)] ascV) \<and>
   tie jsHost ''v'' rowA rowD \<and>
   filter (\<lambda>r. r = rowA \<or> r = rowD)
     (DerivedView jsHost [rowA, rowB, rowC, rowD] [(''v'', Some hasV)] ascV) =
   filter (\<lambda>r. r = rowA \<or> r = rowD)
     (DerivedView jsHost [rowA, rowB, rowC, rowD] [(''v'', Some hasV)] (ascV\<lparr>field := None\<rparr>)) \<and>
   DerivedView jsHost [rowA, rowB, rowC, rowD] [(''v'', Some hasV)] ascV = [rowC, rowA, rowD]"
proof -
  have 1: "field ascV = Some ''v''" by (simp add: ascV_def)
  have 2: "''v'' \<noteq> []" by simp
  have 3: "comparable jsHost ''v''
     (DerivedView jsHost [rowA, rowB, rowC, rowD] [(''v'', Some hasV)] (ascV\<lparr>field := None\<rparr>))"
    by code_simp
  have 4: "tie jsHost ''v'' rowA rowD" by code_simp
  have 5: "DerivedView jsHost [rowA, rowB, rowC, rowD] [(''v'', Some hasV)] ascV = [rowC, rowA, rowD]"
    by code_simp
  note t = sorted_view_ordered_and_stable [OF 1 2 3]
  from t have 6: "orderedBy jsHost ''v'' (direction ascV)
     (DerivedView jsHost [rowA, rowB, rowC, rowD] [(''v'', Some hasV)] ascV)" by (rule conjunct1)
  from t 4 have 7: "filter (\<lambda>r. r = rowA \<or> r = rowD)
     (DerivedView jsHost [rowA, rowB, rowC, rowD] [(''v'', Some hasV)] ascV) =
   filter (\<lambda>r. r = rowA \<or> r = rowD)
     (DerivedView jsHost [rowA, rowB, rowC, rowD] [(''v'', Some hasV)] (ascV\<lparr>field := None\<rparr>))"
    by blast
  from 1 2 3 6 4 7 5 show ?thesis by (intro conjI)
qed

text \<open>
  C2 as it is stated, for every sort spec with a non-empty field, fails. Of the rows \<open>rowA\<close>, \<open>rowB\<close>, \<open>rowC\<close> the
  second has no property \<^verbatim>\<open>v\<close>, so that the comparator returns 0 for it against both
  others; sorted ascending by \<^verbatim>\<open>v\<close>, the view is the input unchanged, with the value 3
  in front of the value 1.
\<close>

theorem undefined_value_breaks_order:
  "field ascV = Some ''v'' \<and> ''v'' \<noteq> [] \<and>
   DerivedView jsHost [rowA, rowB, rowC] [] ascV = [rowA, rowB, rowC] \<and>
   \<not> orderedBy jsHost ''v'' (direction ascV) (DerivedView jsHost [rowA, rowB, rowC] [] ascV)"
proof -
  have "field ascV = Some ''v''" by (simp add: ascV_def)
  moreover have "''v'' \<noteq> []" by simp
  moreover have "DerivedView jsHost [rowA, rowB, rowC] [] ascV = [rowA, rowB, rowC]" by code_simp
  moreover have "\<not> orderedBy jsHost ''v'' (direction ascV) (DerivedView jsHost [rowA, rowB, rowC] [] ascV)"
    by code_simp
  ultimately show ?thesis by (intro conjI)
qed

text \<open>
  This does not depend on how the host sorts: no arrangement of the three rows is both
  ordered and keeps the tied rows in their order.
\<close>

lemma no_ordered_stable_arrangement:
  "\<not> (\<exists>ys. mset ys = mset [rowA, rowB, rowC] \<and> orderedBy jsHost ''v'' (Some ''asc'') ys \<and>
        (\<forall>a b. tie jsHost ''v'' a b \<longrightarrow>
           filter (\<lambda>r. r = a \<or> r = b) ys = filter (\<lambda>r. r = a \<or> r = b) [rowA, rowB, rowC]))"
proof
  assume "\<exists>ys. mset ys = mset [rowA, rowB, rowC] \<and> orderedBy jsHost ''v'' (Some ''asc'') ys \<and>
        (\<forall>a b. tie jsHost ''v'' a b \<longrightarrow>
           filter (\<lambda>r. r = a \<or> r = b) ys = filter (\<lambda>r. r = a \<or> r = b) [rowA, rowB, rowC])"
  then obtain ys where m: "mset ys = mset [rowA, rowB, rowC]"
    and o: "orderedBy jsHost ''v'' (Some ''asc'') ys"
    and s: "\<And>a b. tie jsHost ''v'' a b \<Longrightarrow>
           filter (\<lambda>r. r = a \<or> r = b) ys = filter (\<lambda>r. r = a \<or> r = b) [rowA, rowB, rowC]"
    by blast
  from three_arrangements [OF m rows_distinct]
  consider "ys = [rowA, rowB, rowC]" | "ys = [rowA, rowC, rowB]" | "ys = [rowB, rowA, rowC]"
    | "ys = [rowB, rowC, rowA]" | "ys = [rowC, rowA, rowB]" | "ys = [rowC, rowB, rowA]"
    by blast
  then show False
  proof cases
    case 1 with o ex_checks(3) show False by simp
  next
    case 2 with o ex_checks(4) show False by simp
  next
    case 3 with o ex_checks(5) show False by simp
  next
    case 4
    from s [OF ex_checks(1)] ex_checks(6) show False unfolding 4 by (rule notE [rotated])
  next
    case 5
    from s [OF ex_checks(2)] ex_checks(7) show False unfolding 5 by (rule notE [rotated])
  next
    case 6
    from s [OF ex_checks(2)] ex_checks(8) show False unfolding 6 by (rule notE [rotated])
  qed
qed

text \<open>
  C7. The pipeline does not change the caller's array: in the store it leaves, every
  array that existed before, the caller's among them, has the contents it had, and the
  array returned is a new one.
\<close>

theorem pipeline_keeps_source_rows:
  assumes "dataRef < length h"
  shows "fst (sortedFilteredData H h dataRef fs s) ! dataRef = h ! dataRef \<and>
         snd (sortedFilteredData H h dataRef fs s) \<noteq> dataRef \<and>
         take (length h) (fst (sortedFilteredData H h dataRef fs s)) = h"
proof -
  from sortedFilteredData_spec [OF assms, of H fs s] obtain ext out where
    r: "sortedFilteredData H h dataRef fs s = (h @ ext, out)" and o: "length h \<le> out"
    by blast
  from assms o show ?thesis by (simp add: r nth_append)
qed

theorem pipeline_keeps_source_rows_witness:
  "(0::nat) < length [[rowA, rowC]] \<and>
   sortedFilteredData jsHost [[rowA, rowC]] 0 [] ascV = ([[rowA, rowC], [rowC, rowA]], 1) \<and>
   fst (sortedFilteredData jsHost [[rowA, rowC]] 0 [] ascV) ! 0 = [[rowA, rowC]] ! 0 \<and>
   snd (sortedFilteredData jsHost [[rowA, rowC]] 0 [] ascV) \<noteq> 0 \<and>
   take (length [[rowA, rowC]]) (fst (sortedFilteredData jsHost [[rowA, rowC]] 0 [] ascV)) = [[rowA, rowC]]"
proof -
  have 1: "(0::nat) < length [[rowA, rowC]]" by simp
  have 2: "sortedFilteredData jsHost [[rowA, rowC]] 0 [] ascV = ([[rowA, rowC], [rowC, rowA]], 1)"
    by code_simp
  from 1 2 pipeline_keeps_source_rows [OF 1, of jsHost "[]" ascV] show ?thesis by (intro conjI) blast+
qed

text \<open>
  C9, as amended. When two values are neither greater nor less than each other, as when
  one of them is missing, the comparator returns 0. Sorting drops no row: the view has the
  rows of the filtered input, each as often. Rows that tie keep the order they have in the
  filtered input when the values of the sort field are mutually comparable on the filtered
  rows; in particular, when every two filtered rows tie, as when none has the field, the
  view is the filtered input.
\<close>

theorem tied_rows_kept_and_in_order_when_comparable:
  assumes "field s = Some f"
  shows "(\<not> opGt H (getProp H a f) (getProp H b f) \<and> \<not> opLt H (getProp H a f) (getProp H b f) \<longrightarrow>
            comparator H f (direction s) a b = 0) \<and>
         mset (DerivedView H rows fs s) = mset (DerivedView H rows fs (s\<lparr>field := None\<rparr>)) \<and>
         (comparable H f (DerivedView H rows fs (s\<lparr>field := None\<rparr>)) \<longrightarrow>
            (\<forall>x y. tie H f x y \<longrightarrow>
               filter (\<lambda>r. r = x \<or> r = y) (DerivedView H rows fs s) =
               filter (\<lambda>r. r = x \<or> r = y) (DerivedView H rows fs (s\<lparr>field := None\<rparr>)))) \<and>
         (allTie H f (DerivedView H rows fs (s\<lparr>field := None\<rparr>)) \<longrightarrow>
            DerivedView H rows fs s = DerivedView H rows fs (s\<lparr>field := None\<rparr>))"
proof (intro conjI)
  let ?xs = "DerivedView H rows fs (s\<lparr>field := None\<rparr>)"
  show "\<not> opGt H (getProp H a f) (getProp H b f) \<and> \<not> opLt H (getProp H a f) (getProp H b f) \<longrightarrow>
      comparator H f (direction s) a b = 0"
    by (simp add: comparator_def Let_def)
  show "mset (DerivedView H rows fs s) = mset ?xs"
    by (simp add: DerivedView_eq mset_sortStep)
  have v: "DerivedView H rows fs s =
      (if f = [] then ?xs else arraySort (comparator H f (direction s)) ?xs)"
  proof (cases "f = []")
    case True
    with assms have "sortField s = None" by (simp add: sortField_def)
    then have "DerivedView H rows fs s = ?xs"
      unfolding DerivedView_unsorted by (simp add: DerivedView_eq sortStep_def)
    with True show ?thesis by simp
  next
    case False
    with DerivedView_sorted [OF assms False] show ?thesis by simp
  qed
  show "comparable H f ?xs \<longrightarrow>
      (\<forall>x y. tie H f x y \<longrightarrow>
         filter (\<lambda>r. r = x \<or> r = y) (DerivedView H rows fs s) = filter (\<lambda>r. r = x \<or> r = y) ?xs)"
    unfolding v by (simp add: tie_arraySort)
  show "allTie H f ?xs \<longrightarrow> DerivedView H rows fs s = ?xs"
  proof
    assume t: "allTie H f ?xs"
    have "arraySort (comparator H f (direction s)) ?xs = ?xs"
    proof (rule arraySort_all_le)
      fix x y
      assume "x \<in> set ?xs" "y \<in> set ?xs"
      with t have "tie H f x y" unfolding allTie_def by blast
      then show "comparator H f (direction s) x y \<le> 0" by (simp add: comparator_tie)
    qed
    then show "DerivedView H rows fs s = ?xs" unfolding v by simp
  qed
qed

theorem tied_rows_kept_and_in_order_when_comparable_witness:
  "field ascV = Some ''v'' \<and>
   jsGet rowB ''v'' = JUndefined \<and> jsGet rowE ''v'' = JUndefined \<and>
   comparator jsHost ''v'' (direction ascV) rowB rowA = 0 \<and>
   mset (DerivedView jsHost [rowA, rowC, rowB, rowE] [] ascV) = mset [rowA, rowC, rowB, rowE] \<and>
   comparable jsHost ''v'' (DerivedView jsHost [rowA, rowC, rowD] [] (ascV\<lparr>field := None\<rparr>)) \<and>
   tie jsHost ''v'' rowA rowD \<and>
   filter (\<lambda>r. r = rowA \<or> r = rowD) (DerivedView jsHost [rowA, rowC, rowD] [] ascV) = [rowA, rowD] \<and>
   allTie jsHost ''v'' (DerivedView jsHost [rowB, rowE] [] (ascV\<lparr>field := None\<rparr>)) \<and>
   DerivedView jsHost [rowB, rowE] [] ascV = [rowB, rowE]"
proof -
  have 1: "field ascV = Some ''v''" by (simp add: ascV_def)
  have 2: "jsGet rowB ''v'' = JUndefined" "jsGet rowE ''v'' = JUndefined" by code_simp+
  have g: "\<not> opGt jsHost (getProp jsHost rowB ''v'') (getProp jsHost rowA ''v'') \<and>
           \<not> opLt jsHost (getProp jsHost rowB ''v'') (getProp jsHost rowA ''v'')" by code_simp
  from tied_rows_kept_and_in_order_when_comparable [OF 1, of jsHost rowB rowA] g
  have 3: "comparator jsHost ''v'' (direction ascV) rowB rowA = 0" by blast
  have u: "DerivedView jsHost [rowA, rowC, rowB, rowE] [] (ascV\<lparr>field := None\<rparr>) = [rowA, rowC, rowB, rowE]"
    by code_simp
  from tied_rows_kept_and_in_order_when_comparable [OF 1, of jsHost rowB rowA "[rowA, rowC, rowB, rowE]" "[]"] u
  have 4: "mset (DerivedView jsHost [rowA, rowC, rowB, rowE] [] ascV) = mset [rowA, rowC, rowB, rowE]"
    by simp
  have 5: "comparable jsHost ''v'' (DerivedView jsHost [rowA, rowC, rowD] [] (ascV\<lparr>field := None\<rparr>))"
    by code_simp
  have 6: "tie jsHost ''v'' rowA rowD" by code_simp
  have w: "filter (\<lambda>r. r = rowA \<or> r = rowD) (DerivedView jsHost [rowA, rowC, rowD] [] (ascV\<lparr>field := None\<rparr>)) =
      [rowA, rowD]" by code_simp
  from tied_rows_kept_and_in_order_when_comparable [OF 1, of jsHost rowB rowA "[rowA, rowC, rowD]" "[]"] 5 6
  have "filter (\<lambda>r. r = rowA \<or> r = rowD) (DerivedView jsHost [rowA, rowC, rowD] [] ascV) =
      filter (\<lambda>r. r = rowA \<or> r = rowD) (DerivedView jsHost [rowA, rowC, rowD] [] (ascV\<lparr>field := None\<rparr>))"
    by blast
  with w have 7: "filter (\<lambda>r. r = rowA \<or> r = rowD) (DerivedView jsHost [rowA, rowC, rowD] [] ascV) = [rowA, rowD]"
    by simp
  have 8: "allTie jsHost ''v'' (DerivedView jsHost [rowB, rowE] [] (ascV\<lparr>field := None\<rparr>))"
    by code_simp
  have e: "DerivedView jsHost [rowB, rowE] [] (ascV\<lparr>field := None\<rparr>) = [rowB, rowE]" by code_simp
  from tied_rows_kept_and_in_order_when_comparable [OF 1, of jsHost rowB rowA "[rowB, rowE]" "[]"] 8
  have "DerivedView jsHost [rowB, rowE] [] ascV = DerivedView jsHost [rowB, rowE] [] (ascV\<lparr>field := None\<rparr>)"
    by blast
  with e have 9: "DerivedView jsHost [rowB, rowE] [] ascV = [rowB, rowE]" by simp
  from 1 2 3 4 5 6 7 8 9 show ?thesis by (intro conjI)
qed

text \<open>
  C9 as it is stated, for every filtered input, fails. Of the rows \<open>rowA\<close>, \<open>rowF\<close>,
  \<open>rowB\<close>, \<open>rowC\<close> with the values 3, 2, none and 1, the third ties with every other
  one. Sorted ascending by binary insertion, the run 3, 2 is reversed, \<open>rowB\<close> stays
  behind it, and the search for the place of \<open>rowC\<close> compares it with 3 and 2 only: in
  the view \<open>rowC\<close> stands in front of \<open>rowB\<close>, which it followed in the filtered input.
\<close>

theorem binary_insertion_moves_tied_row:
  "field ascV = Some ''v'' \<and>
   jsGet rowB ''v'' = JUndefined \<and>
   tie jsHost ''v'' rowB rowC \<and>
   comparator jsHost ''v'' (direction ascV) rowB rowC = 0 \<and>
   comparator jsHost ''v'' (direction ascV) rowC rowB = 0 \<and>
   viewUnder binaryInsertionSort jsHost [rowA, rowF, rowB, rowC] [] (ascV\<lparr>field := None\<rparr>) =
     [rowA, rowF, rowB, rowC] \<and>
   viewUnder binaryInsertionSort jsHost [rowA, rowF, rowB, rowC] [] ascV =
     [rowC, rowF, rowA, rowB]"
proof -
  have "field ascV = Some ''v''" by (simp add: ascV_def)
  moreover have "jsGet rowB ''v'' = JUndefined" by code_simp
  moreover have "tie jsHost ''v'' rowB rowC" by code_simp
  moreover have "comparator jsHost ''v'' (direction ascV) rowB rowC = 0" by code_simp
  moreover have "comparator jsHost ''v'' (direction ascV) rowC rowB = 0" by code_simp
  moreover have "viewUnder binaryInsertionSort jsHost [rowA, rowF, rowB, rowC] [] (ascV\<lparr>field := None\<rparr>) =
     [rowA, rowF, rowB, rowC]" by code_simp
  moreover have "viewUnder binaryInsertionSort jsHost [rowA, rowF, rowB, rowC] [] ascV =
     [rowC, rowF, rowA, rowB]" by code_simp
  ultimately show ?thesis by (intro conjI)
qed

subsection \<open>The mutations\<close>

text \<open>
  C3. \<^verbatim>\<open>handleSort(f)\<close> sets the sort spec to the field \<open>f\<close> with direction
  \<^verbatim>\<open>'desc'\<close> when the current spec is exactly \<open>f\<close> with \<^verbatim>\<open>'asc'\<close>, and with
  \<^verbatim>\<open>'asc'\<close> in every other case, and changes nothing else. Repeated calls with the
  same field therefore alternate: after \<open>n + 1\<close> calls the direction is the one of
  the first call when \<open>n\<close> is even and the other one when \<open>n\<close> is odd.
\<close>

theorem handleSort_alternates:
  "fst (handleSort p st f) =
     st\<lparr>sortSpec := \<lparr>field = Some f,
                      direction = Some (if sortSpec st = \<lparr>field = Some f, direction = Some ''asc''\<rparr>
                                        then ''desc'' else ''asc'')\<rparr>\<rparr> \<and>
   sortSpec (((\<lambda>t. fst (handleSort p t f)) ^^ Suc n) st) =
     \<lparr>field = Some f,
      direction = Some (if (sortSpec st = \<lparr>field = Some f, direction = Some ''asc''\<rparr>) = odd n
                        then ''asc'' else ''desc'')\<rparr>"
proof
  show "fst (handleSort p st f) =
     st\<lparr>sortSpec := \<lparr>field = Some f,
                      direction = Some (if sortSpec st = \<lparr>field = Some f, direction = Some ''asc''\<rparr>
                                        then ''desc'' else ''asc'')\<rparr>\<rparr>"
    by (simp add: handleSort_def Let_def sort_spec_eq)
  show "sortSpec (((\<lambda>t. fst (handleSort p t f)) ^^ Suc n) st) =
     \<lparr>field = Some f,
      direction = Some (if (sortSpec st = \<lparr>field = Some f, direction = Some ''asc''\<rparr>) = odd n
                        then ''asc'' else ''desc'')\<rparr>"
  proof (induction n)
    case 0
    show ?case by (simp add: sortSpec_handleSort)
  next
    case (Suc n)
    have "sortSpec (((\<lambda>t. fst (handleSort p t f)) ^^ Suc (Suc n)) st) =
        sortSpec (fst (handleSort p (((\<lambda>t. fst (handleSort p t f)) ^^ Suc n) st) f))"
      by simp
    also have "\<dots> = \<lparr>field = Some f,
      direction = Some (if (sortSpec st = \<lparr>field = Some f, direction = Some ''asc''\<rparr>) = odd (Suc n)
                        then ''asc'' else ''desc'')\<rparr>"
      unfolding sortSpec_handleSort Suc.IH by (simp add: sort_spec_eq)
    finally show ?case .
  qed
qed

theorem handleSort_alternates_witness:
  "sortSpec (fst (handleSort exProps (initial exProps) ''v'')) = ascV \<and>
   sortSpec (((\<lambda>t. fst (handleSort exProps t ''v'')) ^^ Suc 1) (initial exProps)) = descV \<and>
   sortSpec (((\<lambda>t. fst (handleSort exProps t ''v'')) ^^ Suc 2) (initial exProps)) = ascV"
proof -
  have i: "sortSpec (initial exProps) \<noteq> \<lparr>field = Some ''v'', direction = Some ''asc''\<rparr>"
    by (simp add: initial_def exProps_def)
  have "sortSpec (fst (handleSort exProps (initial exProps) ''v'')) = ascV"
    using handleSort_alternates [of exProps "initial exProps" "''v''" 0] i
    by (simp add: ascV_def)
  moreover have "sortSpec (((\<lambda>t. fst (handleSort exProps t ''v'')) ^^ Suc 1) (initial exProps)) = descV"
    using handleSort_alternates [of exProps "initial exProps" "''v''" 1, THEN conjunct2] i
    by (simp add: descV_def)
  moreover have "sortSpec (((\<lambda>t. fst (handleSort exProps t ''v'')) ^^ Suc 2) (initial exProps)) = ascV"
    using handleSort_alternates [of exProps "initial exProps" "''v''" 2, THEN conjunct2] i
    by (simp add: ascV_def)
  ultimately show ?thesis by (intro conjI)
qed

text \<open>
  C4. \<^verbatim>\<open>handleRowSelect(r)\<close> removes \<open>r\<close> from the selection when it is a member
  and adds it when it is not, and two calls in succession with the same row leave the
  selection with the members it had (and, when \<open>r\<close> was not a member, in the order it
  had them).
\<close>

theorem handleRowSelect_involution:
  "set (selectedRows (fst (handleRowSelect p st r))) =
     (if r \<in> set (selectedRows st) then set (selectedRows st) - {r}
      else insert r (set (selectedRows st))) \<and>
   set (selectedRows (fst (handleRowSelect p (fst (handleRowSelect p st r)) r))) =
     set (selectedRows st) \<and>
   (r \<notin> set (selectedRows st) \<longrightarrow>
      selectedRows (fst (handleRowSelect p (fst (handleRowSelect p st r)) r)) = selectedRows st)"
proof (intro conjI)
  show "set (selectedRows (fst (handleRowSelect p st r))) =
     (if r \<in> set (selectedRows st) then set (selectedRows st) - {r}
      else insert r (set (selectedRows st)))"
    by (rule set_toggle)
  show "set (selectedRows (fst (handleRowSelect p (fst (handleRowSelect p st r)) r))) =
     set (selectedRows st)"
    unfolding set_toggle [of p "fst (handleRowSelect p st r)" r] set_toggle [of p st r]
    by auto
  show "r \<notin> set (selectedRows st) \<longrightarrow>
      selectedRows (fst (handleRowSelect p (fst (handleRowSelect p st r)) r)) = selectedRows st"
    by (simp add: handleRowSelect_def Let_def)
qed

theorem handleRowSelect_involution_witness:
  "selectedRows (fst (handleRowSelect exProps (initial exProps) rowA)) = [rowA] \<and>
   selectedRows (fst (handleRowSelect exProps (fst (handleRowSelect exProps (initial exProps) rowA)) rowA)) = [] \<and>
   set (selectedRows (fst (handleRowSelect exProps (fst (handleRowSelect exProps (initial exProps) rowA)) rowA))) =
     set (selectedRows (initial exProps))"
proof -
  have "selectedRows (fst (handleRowSelect exProps (initial exProps) rowA)) = [rowA]"
    by (simp add: handleRowSelect_def initial_def Let_def)
  moreover have "selectedRows (fst (handleRowSelect exProps (fst (handleRowSelect exProps (initial exProps) rowA)) rowA)) = []"
    by (simp add: handleRowSelect_def initial_def Let_def)
  moreover note handleRowSelect_involution [of exProps "initial exProps" rowA, THEN conjunct2, THEN conjunct1]
  ultimately show ?thesis by (intro conjI)
qed

text \<open>
  C5. Setting a filter function for a field and then clearing it with \<^verbatim>\<open>null\<close>
  gives, for every data array and sort spec, the view computed from the registry
  without any entry for that field; when the field had no entry before, that is the view
  of the state before. The keys of a registry are distinct, as the keys of an object
  are.
\<close>

theorem clearing_filter_restores_view:
  assumes "distinct (map fst (filters st))"
  shows "viewOf H p (fst (handleFilter p (fst (handleFilter p st f (Some q))) f None)) =
           DerivedView H (data p) (filter (\<lambda>e. fst e \<noteq> f) (filters st)) (sortSpec st) \<and>
         (f \<notin> fst ` set (filters st) \<longrightarrow>
            viewOf H p (fst (handleFilter p (fst (handleFilter p st f (Some q))) f None)) = viewOf H p st)"
proof -
  have "passesAll (setKey (filters st) f None) = passesAll (filter (\<lambda>e. fst e \<noteq> f) (filters st))"
    by (rule ext) (rule passesAll_setKey_None [OF assms])
  then have "viewOf H p (fst (handleFilter p (fst (handleFilter p st f (Some q))) f None)) =
      DerivedView H (data p) (filter (\<lambda>e. fst e \<noteq> f) (filters st)) (sortSpec st)"
    by (simp add: viewOf_def handleFilter_def Let_def setKey_setKey DerivedView_eq)
  then show ?thesis by (simp add: filter_absent_key viewOf_def)
qed

theorem clearing_filter_restores_view_witness:
  "distinct (map fst (filters (initial exProps))) \<and>
   viewOf jsHost exProps (fst (handleFilter exProps (initial exProps) ''v'' (Some hasV))) = [rowA, rowC] \<and>
   viewOf jsHost exProps
     (fst (handleFilter exProps (fst (handleFilter exProps (initial exProps) ''v'' (Some hasV))) ''v'' None)) =
   DerivedView jsHost (data exProps) (filter (\<lambda>e. fst e \<noteq> ''v'') (filters (initial exProps)))
     (sortSpec (initial exProps)) \<and>
   DerivedView jsHost (data exProps) (filter (\<lambda>e. fst e \<noteq> ''v'') (filters (initial exProps)))
     (sortSpec (initial exProps)) = [rowA, rowB, rowC]"
proof -
  have 1: "distinct (map fst (filters (initial exProps)))" by (rule keys_distinct_initial)
  have 2: "viewOf jsHost exProps (fst (handleFilter exProps (initial exProps) ''v'' (Some hasV))) = [rowA, rowC]"
    by code_simp
  note 3 = clearing_filter_restores_view [OF 1, of jsHost exProps "''v''" hasV, THEN conjunct1]
  have 4: "DerivedView jsHost (data exProps) (filter (\<lambda>e. fst e \<noteq> ''v'') (filters (initial exProps)))
     (sortSpec (initial exProps)) = [rowA, rowB, rowC]"
    by code_simp
  from 1 2 3 4 show ?thesis by (intro conjI)
qed

text \<open>
  C6. Each mutation sends exactly one notification when its callback was passed, and
  none otherwise: \<^verbatim>\<open>handleSort\<close> calls \<^verbatim>\<open>onSort\<close> with the new sort spec,
  \<^verbatim>\<open>handleFilter\<close> calls \<^verbatim>\<open>onFilter\<close> with the new registry, and
  \<^verbatim>\<open>handleRowSelect\<close> calls \<^verbatim>\<open>onRowSelect\<close> with the array of the members of the
  new selection.
\<close>

theorem mutations_notify:
  "snd (handleSort p st f) =
     (if onSort p then [OnSort (sortSpec (fst (handleSort p st f)))] else []) \<and>
   snd (handleFilter p st f v) =
     (if onFilter p then [OnFilter (filters (fst (handleFilter p st f v)))] else []) \<and>
   snd (handleRowSelect p st r) =
     (if onRowSelect p then [OnRowSelect (selectedRows (fst (handleRowSelect p st r)))] else [])"
  by (simp add: handleSort_def handleFilter_def handleRowSelect_def Let_def)

theorem mutations_notify_witness:
  "snd (handleSort exProps (initial exProps) ''v'') = [OnSort ascV] \<and>
   snd (handleFilter exProps (initial exProps) ''v'' (Some hasV)) = [OnFilter [(''v'', Some hasV)]] \<and>
   snd (handleRowSelect exProps (initial exProps) rowA) = [OnRowSelect [rowA]] \<and>
   snd (handleSort quietProps (initial quietProps) ''v'') = [] \<and>
   snd (handleFilter quietProps (initial quietProps) ''v'' (Some hasV)) = [] \<and>
   snd (handleRowSelect quietProps (initial quietProps) rowA) = []"
proof -
  have "snd (handleSort exProps (initial exProps) ''v'') = [OnSort ascV] \<and>
   snd (handleFilter exProps (initial exProps) ''v'' (Some hasV)) = [OnFilter [(''v'', Some hasV)]] \<and>
   snd (handleRowSelect exProps (initial exProps) rowA) = [OnRowSelect [rowA]]"
    using mutations_notify [of exProps "initial exProps" "''v''" "Some hasV" rowA]
    by (simp add: handleSort_def handleFilter_def handleRowSelect_def initial_def exProps_def ascV_def Let_def)
  moreover have "snd (handleSort quietProps (initial quietProps) ''v'') = [] \<and>
   snd (handleFilter quietProps (initial quietProps) ''v'' (Some hasV)) = [] \<and>
   snd (handleRowSelect quietProps (initial quietProps) rowA) = []"
    using mutations_notify [of quietProps "initial quietProps" "''v''" "Some hasV" rowA]
    by (simp add: quietProps_def)
  ultimately show ?thesis by simp
qed

text \<open>
  C8. Selection is independent of filtering and sorting: \<^verbatim>\<open>handleRowSelect\<close> leaves
  the sort spec, the registry and the view as they are, \<^verbatim>\<open>handleSort\<close> and
  \<^verbatim>\<open>handleFilter\<close> leave the selection as it is, and a selected row that a new
  filter function rejects stays selected while it is absent from the view.
\<close>

theorem selection_independent:
  "sortSpec (fst (handleRowSelect p st r)) = sortSpec st \<and>
   filters (fst (handleRowSelect p st r)) = filters st \<and>
   viewOf H p (fst (handleRowSelect p st r)) = viewOf H p st \<and>
   selectedRows (fst (handleSort p st f)) = selectedRows st \<and>
   selectedRows (fst (handleFilter p st f v)) = selectedRows st \<and>
   (r \<in> set (selectedRows st) \<and> \<not> q r \<longrightarrow>
      r \<in> set (selectedRows (fst (handleFilter p st f (Some q)))) \<and>
      r \<notin> set (viewOf H p (fst (handleFilter p st f (Some q)))))"
proof -
  have "r \<notin> set (viewOf H p (fst (handleFilter p st f (Some q))))" if "\<not> q r"
  proof -
    have "(f, Some q) \<in> set (setKey (filters st) f (Some q))" by (rule in_setKey)
    with that have "\<not> passesAll (setKey (filters st) f (Some q)) r"
      unfolding passesAll_iff by blast
    then show ?thesis
      by (simp add: viewOf_def handleFilter_def Let_def set_DerivedView)
  qed
  then show ?thesis
    by (simp add: handleRowSelect_def handleSort_def handleFilter_def Let_def viewOf_def)
qed

theorem selection_independent_witness:
  "rowB \<in> set (selectedRows (fst (handleRowSelect exProps (initial exProps) rowB))) \<and>
   \<not> hasV rowB \<and>
   rowB \<in> set (selectedRows
     (fst (handleFilter exProps (fst (handleRowSelect exProps (initial exProps) rowB)) ''v'' (Some hasV)))) \<and>
   rowB \<notin> set (viewOf jsHost exProps
     (fst (handleFilter exProps (fst (handleRowSelect exProps (initial exProps) rowB)) ''v'' (Some hasV)))) \<and>
   viewOf jsHost exProps
     (fst (handleFilter exProps (fst (handleRowSelect exProps (initial exProps) rowB)) ''v'' (Some hasV))) =
   [rowA, rowC]"
proof -
  have 1: "rowB \<in> set (selectedRows (fst (handleRowSelect exProps (initial exProps) rowB)))"
    by (simp add: handleRowSelect_def initial_def Let_def)
  have 2: "\<not> hasV rowB" by code_simp
  have 3: "viewOf jsHost exProps
     (fst (handleFilter exProps (fst (handleRowSelect exProps (initial exProps) rowB)) ''v'' (Some hasV))) =
   [rowA, rowC]" by code_simp
  from selection_independent [where p = exProps and r = rowB and H = jsHost and f = "''v''"
      and q = hasV and st = "fst (handleRowSelect exProps (initial exProps) rowB)"] 1 2
  have 4: "rowB \<in> set (selectedRows
     (fst (handleFilter exProps (fst (handleRowSelect exProps (initial exProps) rowB)) ''v'' (Some hasV)))) \<and>
   rowB \<notin> set (viewOf jsHost exProps
     (fst (handleFilter exProps (fst (handleRowSelect exProps (initial exProps) rowB)) ''v'' (Some hasV))))"
    by blast
  from 1 2 3 4 show ?thesis by (intro conjI) blast+
qed

text \<open>
  C10. Clearing a filter does not remove its key: after \<^verbatim>\<open>handleFilter(f, null)\<close>
  the keys of the registry are the former keys and \<open>f\<close>, the key \<open>f\<close> holds
  \<^verbatim>\<open>null\<close>, no entry is gone, and this registry is what \<^verbatim>\<open>onFilter\<close> receives. The
  cleared entry has no effect on the view only because the pipeline skips the entries
  that hold \<^verbatim>\<open>null\<close>: the view is the one of the registry without them.
\<close>

theorem cleared_filter_key_stays:
  "fst ` set (filters (fst (handleFilter p st f None))) = insert f (fst ` set (filters st)) \<and>
   map_of (filters (fst (handleFilter p st f None))) f = Some None \<and>
   length (filters st) \<le> length (filters (fst (handleFilter p st f None))) \<and>
   snd (handleFilter p st f None) =
     (if onFilter p then [OnFilter (filters (fst (handleFilter p st f None)))] else []) \<and>
   viewOf H p (fst (handleFilter p st f None)) =
     DerivedView H (data p) (filter (\<lambda>e. snd e \<noteq> None) (filters (fst (handleFilter p st f None))))
       (sortSpec st)"
proof -
  have "passesAll (filter (\<lambda>e. snd e \<noteq> None) fs) = passesAll fs" for fs :: "'a registry"
    by (rule ext) (rule passesAll_drop_null)
  then show ?thesis
    by (simp add: handleFilter_def Let_def keys_setKey map_of_setKey length_setKey viewOf_def
        DerivedView_eq)
qed

theorem cleared_filter_key_stays_witness:
  "filters (fst (handleFilter exProps (initial exProps) ''v'' (Some hasV))) = [(''v'', Some hasV)] \<and>
   filters (fst (handleFilter exProps
     (fst (handleFilter exProps (initial exProps) ''v'' (Some hasV))) ''v'' None)) = [(''v'', None)] \<and>
   snd (handleFilter exProps
     (fst (handleFilter exProps (initial exProps) ''v'' (Some hasV))) ''v'' None) = [OnFilter [(''v'', None)]] \<and>
   viewOf jsHost exProps (fst (handleFilter exProps
     (fst (handleFilter exProps (initial exProps) ''v'' (Some hasV))) ''v'' None)) = [rowA, rowB, rowC]"
proof -
  have 1: "filters (fst (handleFilter exProps (initial exProps) ''v'' (Some hasV))) = [(''v'', Some hasV)]"
    by (simp add: handleFilter_def initial_def Let_def)
  have 2: "filters (fst (handleFilter exProps
     (fst (handleFilter exProps (initial exProps) ''v'' (Some hasV))) ''v'' None)) = [(''v'', None)]"
    by (simp add: handleFilter_def initial_def Let_def)
  have e: "onFilter exProps" by (simp add: exProps_def)
  note t = cleared_filter_key_stays [of exProps
      "fst (handleFilter exProps (initial exProps) ''v'' (Some hasV))" "''v''" jsHost]
  from t e have 3: "snd (handleFilter exProps
     (fst (handleFilter exProps (initial exProps) ''v'' (Some hasV))) ''v'' None) = [OnFilter [(''v'', None)]]"
    unfolding 2 by simp
  have 4: "viewOf jsHost exProps (fst (handleFilter exProps
     (fst (handleFilter exProps (initial exProps) ''v'' (Some hasV))) ''v'' None)) = [rowA, rowB, rowC]"
    by code_simp
  from 1 2 3 4 show ?thesis by (intro conjI)
qed

end
